theory Spec2Isabelle
  imports Main
begin

section \<open>Regular expressions of the host\<close>

text \<open>
  A \<open>RegExp\<close> object is its source and its flags (the string the \<open>flags\<close> getter
  returns, in the host's canonical order \<open>dgimsuvy\<close>). What a pattern matches is
  decided by the host's regex engine, which is no part of the repository: it is a
  parameter \<open>E\<close> of the tokenizer. \<open>E r lastIndex text\<close> is \<open>r.exec(text)\<close> after
  \<open>r.lastIndex = lastIndex\<close>: \<open>None\<close> for \<open>null\<close>, otherwise the match's \<open>index\<close>,
  \<open>match[0]\<close> and \<open>match[1]\<close> (\<open>None\<close> when group 1 is \<open>undefined\<close>).
\<close>

record regex =
  source :: string
  flags :: string



definition global :: "regex \<Rightarrow> bool" where
  "global r = (CHR ''g'' \<in> set (flags r))"

definition toString :: "regex \<Rightarrow> string" where
  "toString r = ''/'' @ source r @ ''/'' @ flags r"

text \<open>\<open>s.match(/[imsuy]*$/)[0]\<close>: the longest suffix of \<open>s\<close> made of the characters i, m, s, u, y.\<close>

definition match_flags :: "string \<Rightarrow> string" where
  "match_flags s = rev (takeWhile (\<lambda>c. c \<in> set ''imsuy'') (rev s))"

text \<open>\<open>RegExp(source, flags)\<close>; the \<open>flags\<close> getter of the result lists the flags in canonical order.\<close>

definition RegExp :: "string \<Rightarrow> string \<Rightarrow> regex" where
  "RegExp src fl = \<lparr>source = src, flags = filter (\<lambda>c. c \<in> set fl) ''dgimsuvy''\<rparr>"




section \<open>Grammars\<close>

text \<open>
  A grammar entry is a \<open>RegExp\<close>, a \<open>GrammarToken\<close> object (its fields \<open>pattern\<close>,
  \<open>lookbehind\<close>, \<open>greedy\<close>, \<open>alias\<close>, \<open>inside\<close>, in this order), or an array of those. Grammars
  are objects held by reference and may refer to themselves through \<open>inside\<close>, so a
  nested grammar is a reference into a table of grammars.
\<close>

datatype token_alias = AliasStr string | AliasArr "string list"

type_synonym gref = nat

datatype pattern_obj =
    Bare regex
  | GrammarToken regex bool bool "token_alias option" "gref option"

datatype rule = One pattern_obj | Many "pattern_obj list"

record grammar =
  entries :: "(string \<times> rule) list"
  rest :: "gref option"


subsection \<open>Property order of objects\<close>

text \<open>
  \<open>for (key in o)\<close> lists the own string keys of a plain object in insertion order,
  after its array-index keys in ascending numeric order. \<open>o[k] = v\<close> keeps the place
  of a key that exists.
\<close>

definition dec_val :: "string \<Rightarrow> nat" where
  "dec_val s = foldl (\<lambda>n c. 10 * n + (of_char c - 48)) 0 s"

definition is_array_index :: "string \<Rightarrow> bool" where
  "is_array_index s = (s \<noteq> [] \<and> list_all (\<lambda>c. c \<in> set ''0123456789'') s
     \<and> (hd s \<noteq> CHR ''0'' \<or> s = ''0'') \<and> dec_val s < 4294967295)"

fun replace_value :: "(string \<times> 'v) list \<Rightarrow> string \<Rightarrow> 'v \<Rightarrow> (string \<times> 'v) list" where
  "replace_value [] k v = []"
| "replace_value ((k', v') # ps) k v =
     (if k' = k then (k', v) # ps else (k', v') # replace_value ps k v)"

definition obj_set :: "(string \<times> 'v) list \<Rightarrow> string \<Rightarrow> 'v \<Rightarrow> (string \<times> 'v) list" where
  "obj_set ps k v =
     (if k \<in> fst ` set ps then replace_value ps k v
      else if is_array_index k then
        takeWhile (\<lambda>(k', _). is_array_index k' \<and> dec_val k' < dec_val k) ps @ [(k, v)]
        @ dropWhile (\<lambda>(k', _). is_array_index k' \<and> dec_val k' < dec_val k) ps
      else ps @ [(k, v)])"


text \<open>\<open>patterns = Array.isArray(patterns) ? patterns : [patterns]\<close>\<close>

definition as_array :: "rule \<Rightarrow> pattern_obj list" where
  "as_array r = (case r of One p \<Rightarrow> [p] | Many ps \<Rightarrow> ps)"

text \<open>
  The two nested loops of \<open>matchGrammar\<close>, over the entries and over the patterns
  \<open>j\<close> of each entry, visit these triples in this order.
\<close>

definition flat_patterns :: "grammar \<Rightarrow> (string \<times> nat \<times> pattern_obj) list" where
  "flat_patterns g =
     concat (map (\<lambda>(token, r). map (\<lambda>(j, p). (token, j, p)) (enumerate 0 (as_array r))) (entries g))"

text \<open>The fields \<open>matchGrammar\<close> reads off a pattern object.\<close>

definition inside_of :: "pattern_obj \<Rightarrow> gref option" where
  "inside_of p = (case p of Bare _ \<Rightarrow> None | GrammarToken _ _ _ _ i \<Rightarrow> i)"


definition greedy_of :: "pattern_obj \<Rightarrow> bool" where
  "greedy_of p = (case p of Bare _ \<Rightarrow> False | GrammarToken _ _ g _ _ \<Rightarrow> g)"

definition alias_of :: "pattern_obj \<Rightarrow> token_alias option" where
  "alias_of p = (case p of Bare _ \<Rightarrow> None | GrammarToken _ _ _ a _ \<Rightarrow> a)"


text \<open>
  The rewrite of a greedy pattern without the global flag:
  \<open>patternObj.pattern = RegExp(patternObj.pattern.source, flags + "g")\<close>.
\<close>

definition greedy_preflight :: "pattern_obj \<Rightarrow> pattern_obj" where
  "greedy_preflight p =
     (case p of
        Bare r \<Rightarrow> Bare r
      | GrammarToken r l g a i \<Rightarrow>
          if g \<and> \<not> global r
          then GrammarToken (RegExp (source r) (match_flags (toString r) @ ''g'')) l g a i
          else GrammarToken r l g a i)"

section \<open>Tokens and the fragment list\<close>

datatype fragment = Str string | Tok token
and token = Token (ttype: string) (content: content) (talias: token_alias) (tlength: nat)
and content = Plain string | Stream "fragment list"




section \<open>The tokenizer engine\<close>








text \<open>The rematch options: the cause \<open>token + "," + j\<close>, kept as the pair, and the reach.\<close>

type_synonym rematch = "(string \<times> nat) \<times> nat"


text \<open>\<open>if (rematch && reach > rematch.reach) rematch.reach = reach\<close>\<close>

definition extend_reach :: "rematch option \<Rightarrow> nat \<Rightarrow> rematch option" where
  "extend_reach rm reach =
     (case rm of None \<Rightarrow> None
      | Some (cause, r) \<Rightarrow> if reach > r then Some (cause, reach) else Some (cause, r))"


text \<open>Where the loop over the patterns stops, from \<open>k\<close> on: at the cause, or at the end.\<close>

definition stop_at :: "(string \<times> nat \<times> pattern_obj) list \<Rightarrow> string \<times> nat \<Rightarrow> nat \<Rightarrow> nat" where
  "stop_at ps c k = k + length (takeWhile (\<lambda>(t, j, _). (t, j) \<noteq> c) (drop k ps))"

definition stop_index :: "grammar \<Rightarrow> rematch option \<Rightarrow> nat \<Rightarrow> nat" where
  "stop_index g rm k =
     (case rm of None \<Rightarrow> length (flat_patterns g)
      | Some (c, _) \<Rightarrow> stop_at (flat_patterns g) c k)"

subsection \<open>Facts for the termination of the engine\<close>
















lemma stop_index_extend_reach [simp]: "stop_index g (extend_reach rm r) k = stop_index g rm k"
  by (simp add: stop_index_def extend_reach_def split: option.splits)





section \<open>The empty input\<close>



section \<open>The rewrite of greedy patterns\<close>

lemma greedy_preflight_idem: "greedy_preflight (greedy_preflight p) = greedy_preflight p"
  by (cases p) (auto simp: greedy_preflight_def global_def RegExp_def)


lemma match_flags_toString:
  "set fl \<subseteq> set ''imsuy'' \<Longrightarrow> match_flags (toString \<lparr>source = s, flags = fl\<rparr>) = fl"
proof -
  assume a: "set fl \<subseteq> set ''imsuy''"
  have "rev (toString \<lparr>source = s, flags = fl\<rparr>) = rev fl @ CHR ''/'' # rev (''/'' @ s)"
    by (simp add: toString_def)
  moreover have "takeWhile (\<lambda>c. c \<in> set ''imsuy'') (rev fl @ CHR ''/'' # rev (''/'' @ s)) = rev fl"
    using a by (subst takeWhile_append2) auto
  ultimately show ?thesis by (simp add: match_flags_def)
qed

lemma greedy_preflight_keeps_imsuy:
  assumes "set fl \<subseteq> set ''imsuy''"
  shows "greedy_preflight (GrammarToken \<lparr>source = s, flags = fl\<rparr> l True a i)
    = GrammarToken \<lparr>source = s, flags = filter (\<lambda>c. c \<in> set fl \<or> c = CHR ''g'') ''dgimsuvy''\<rparr> l True a i"
proof -
  have "CHR ''g'' \<notin> set fl" using assms by auto
  then show ?thesis
    using match_flags_toString [OF assms, of s]
    by (simp add: greedy_preflight_def global_def RegExp_def)
qed

text \<open>
  C7: the rewrite adds the global flag, keeps the flags i, m, s, u and y, and once done
  changes nothing more (the lemmas above); but it keeps only the flags that
  \<open>/[imsuy]*$/\<close> finds at the end of \<open>toString()\<close>. A greedy pattern \<open>/a/di\<close> comes out as
  \<open>/a/gi\<close>: the flag d is lost.
\<close>

theorem greedy_preflight_drops_flag:
  "greedy_preflight (GrammarToken \<lparr>source = ''a'', flags = ''di''\<rparr> False True None None)
     = GrammarToken \<lparr>source = ''a'', flags = ''gi''\<rparr> False True None None"
  by (simp add: greedy_preflight_def global_def RegExp_def match_flags_def toString_def)

section \<open>The text of the fragments\<close>

text \<open>
  The leaf strings of a fragment, concatenated: a raw string is its own text, a Token
  the text of its content.
\<close>

fun frag_text :: "fragment \<Rightarrow> string"
  and token_text :: "token \<Rightarrow> string"
  and content_text :: "content \<Rightarrow> string" where
  "frag_text (Str s) = s"
| "frag_text (Tok t) = token_text t"
| "token_text (Token ty c al n) = content_text c"
| "content_text (Plain s) = s"
| "content_text (Stream fs) = concat (map frag_text fs)"

definition stream_text :: "fragment list \<Rightarrow> string" where
  "stream_text xs = concat (map frag_text xs)"

text \<open>The \<open>length\<close> of every Token, at every depth, is the length of its text.\<close>

fun frag_ok :: "fragment \<Rightarrow> bool"
  and token_ok :: "token \<Rightarrow> bool"
  and content_ok :: "content \<Rightarrow> bool" where
  "frag_ok (Str s) = True"
| "frag_ok (Tok t) = token_ok t"
| "token_ok (Token ty c al n) = (n = length (content_text c) \<and> content_ok c)"
| "content_ok (Plain s) = True"
| "content_ok (Stream fs) = list_all frag_ok fs"




text \<open>The position of the node \<open>i\<close>: the length of the text before it.\<close>

definition plen :: "fragment list \<Rightarrow> nat \<Rightarrow> nat" where
  "plen xs i = length (stream_text (take i xs))"




lemma stream_text_Cons [simp]: "stream_text (x # xs) = frag_text x @ stream_text xs"
  by (simp add: stream_text_def)

lemma stream_text_Nil [simp]: "stream_text [] = []"
  by (simp add: stream_text_def)

lemma plen_0 [simp]: "plen xs 0 = 0"
  by (simp add: plen_def)































lemma inside_of_preflight [simp]: "inside_of (greedy_preflight p) = inside_of p"
  by (cases p) (auto simp: greedy_preflight_def inside_of_def)

lemma alias_of_preflight [simp]: "alias_of (greedy_preflight p) = alias_of p"
  by (cases p) (auto simp: greedy_preflight_def alias_of_def)

lemma greedy_of_preflight [simp]: "greedy_of (greedy_preflight p) = greedy_of p"
  by (cases p) (auto simp: greedy_preflight_def greedy_of_def)










section \<open>The engine on a literal engine\<close>







section \<open>The text, the lengths and the aliases of the output\<close>









section \<open>Termination\<close>












section \<open>Greedy matches across Tokens\<close>









section \<open>Grammar objects in the heap\<close>

type_synonym addr = nat

datatype jsval = VRegExp regex | VRef addr | VStr string | VBool bool | VFun

datatype okind = Object | Array

record obj =
  kind :: okind
  props :: "(string \<times> jsval) list"

type_synonym heap = "obj list"

definition get_prop :: "heap \<Rightarrow> addr \<Rightarrow> string \<Rightarrow> jsval option" where
  "get_prop H a k = (if a < length H then map_of (props (H ! a)) k else None)"

definition set_prop :: "heap \<Rightarrow> addr \<Rightarrow> string \<Rightarrow> jsval \<Rightarrow> heap" where
  "set_prop H a k v = (if a < length H then H[a := (H ! a)\<lparr>props := obj_set (props (H ! a)) k v\<rparr>] else H)"

definition callback :: "addr \<Rightarrow> addr \<Rightarrow> string \<Rightarrow> heap \<Rightarrow> addr \<Rightarrow> string \<Rightarrow> heap" where
  "callback old ret inside H this key =
     (if get_prop H this key = Some (VRef old) \<and> key \<noteq> inside then set_prop H this key (VRef ret) else H)"

text \<open>\<open>util.type(property)\<close> is \<open>"Object"\<close> or \<open>"Array"\<close>: the value is a reference to an object of the heap.\<close>

definition object_ref :: "heap \<Rightarrow> jsval option \<Rightarrow> addr option" where
  "object_ref H v = (case v of Some (VRef p) \<Rightarrow> if p < length H then Some p else None | _ \<Rightarrow> None)"

text \<open>
  \<open>DFS(o, callback, type, visited)\<close> with the one callback the repository passes, the
  closure of \<open>insertBefore\<close> over \<open>old\<close>, \<open>ret\<close> and \<open>inside\<close>. \<open>visited\<close> is the set of the
  objects that \<open>visited\<close> holds under their \<open>objId\<close>. The keys of \<open>for (i in o)\<close> are
  fixed when the loop starts; \<open>o[i]\<close> is read when its turn comes.
\<close>

function (domintros)
  DFS :: "addr \<Rightarrow> addr \<Rightarrow> string \<Rightarrow> heap \<Rightarrow> addr set \<Rightarrow> addr \<Rightarrow> heap \<times> addr set"
and
  DFS_keys :: "addr \<Rightarrow> addr \<Rightarrow> string \<Rightarrow> heap \<Rightarrow> addr set \<Rightarrow> addr \<Rightarrow> string list \<Rightarrow> heap \<times> addr set"
where
  "DFS old ret inside H visited ob =
     DFS_keys old ret inside H visited ob (if ob < length H then map fst (props (H ! ob)) else [])"
| "DFS_keys old ret inside H visited ob [] = (H, visited)"
| "DFS_keys old ret inside H visited ob (i # is) =
     (case object_ref H (get_prop (callback old ret inside H ob i) ob i) of
        None \<Rightarrow> DFS_keys old ret inside (callback old ret inside H ob i) visited ob is
      | Some p \<Rightarrow>
          if p \<in> visited then DFS_keys old ret inside (callback old ret inside H ob i) visited ob is
          else
            (case DFS old ret inside (callback old ret inside H ob i) (insert p visited) p of
               (H2, visited2) \<Rightarrow> DFS_keys old ret inside H2 visited2 ob is))"
  by pat_completeness auto

lemma length_set_prop [simp]: "length (set_prop H a k v) = length H"
  by (simp add: set_prop_def)

lemma length_callback [simp]: "length (callback old ret inside H this key) = length H"
  by (simp add: callback_def)

definition unvisited :: "heap \<Rightarrow> addr set \<Rightarrow> nat" where
  "unvisited H visited = card ({..<length H} - visited)"

lemma unvisited_insert: "p < length H \<Longrightarrow> p \<notin> visited \<Longrightarrow> unvisited H (insert p visited) < unvisited H visited"
  unfolding unvisited_def by (intro psubset_card_mono) auto

lemma unvisited_mono: "length H' = length H \<Longrightarrow> visited \<subseteq> visited' \<Longrightarrow> unvisited H' visited' \<le> unvisited H visited"
  unfolding unvisited_def by (intro card_mono) auto

lemma unvisited_callback [simp]: "unvisited (callback old ret inside H this key) visited = unvisited H visited"
  by (simp add: unvisited_def)

lemma DFS_mono:
  "DFS_DFS_keys_dom (Inl (old, ret, inside, H, visited, ob)) \<Longrightarrow>
     length (fst (DFS old ret inside H visited ob)) = length H \<and> visited \<subseteq> snd (DFS old ret inside H visited ob)"
  "DFS_DFS_keys_dom (Inr (old, ret, inside, H, visited, ob, ks)) \<Longrightarrow>
     length (fst (DFS_keys old ret inside H visited ob ks)) = length H \<and> visited \<subseteq> snd (DFS_keys old ret inside H visited ob ks)"
proof (induct rule: DFS_DFS_keys.pinduct)
  case (1 old ret inside H visited ob)
  then show ?case by (simp add: DFS.psimps)
next
  case (2 old ret inside H visited ob)
  then show ?case by (simp add: DFS_keys.psimps)
next
  case (3 old ret inside H visited ob i "is")
  let ?H1 = "callback old ret inside H ob i"
  show ?case
  proof (cases "object_ref H (get_prop ?H1 ob i)")
    case None
    with 3 show ?thesis by (simp add: DFS_keys.psimps)
  next
    case (Some p)
    show ?thesis
    proof (cases "p \<in> visited")
      case True
      with 3 Some show ?thesis by (simp add: DFS_keys.psimps)
    next
      case False
      obtain H2 visited2 where r: "DFS old ret inside ?H1 (insert p visited) p = (H2, visited2)"
        by (cases "DFS old ret inside ?H1 (insert p visited) p")
      from "3.hyps"(4) [OF Some False] r
      have a: "length H2 = length H" "insert p visited \<subseteq> visited2" by simp_all
      from "3.hyps"(5) [OF Some False r [symmetric]]
      have b: "length (fst (DFS_keys old ret inside H2 visited2 ob is)) = length H2"
        "visited2 \<subseteq> snd (DFS_keys old ret inside H2 visited2 ob is)" by simp_all
      have "DFS_keys old ret inside H visited ob (i # is) = DFS_keys old ret inside H2 visited2 ob is"
        using "3.hyps"(1) Some False r by (simp add: DFS_keys.psimps)
      with a b show ?thesis by auto
    qed
  qed
qed

lemma DFS_unvisited:
  assumes "DFS_DFS_keys_dom (Inl (old, ret, inside, callback old ret inside H ob i, insert p visited, p))"
    and "(H2, visited2) = DFS old ret inside (callback old ret inside H ob i) (insert p visited) p"
    and "p \<notin> visited" and "p < length H"
  shows "unvisited H2 visited2 < unvisited H visited"
proof -
  have "H2 = fst (DFS old ret inside (callback old ret inside H ob i) (insert p visited) p)"
    and "visited2 = snd (DFS old ret inside (callback old ret inside H ob i) (insert p visited) p)"
    by (simp_all flip: assms(2))
  with DFS_mono(1) [OF assms(1)]
  have "length H2 = length H" "insert p visited \<subseteq> visited2"
    by simp_all
  then have "unvisited H2 visited2 \<le> unvisited H (insert p visited)" by (rule unvisited_mono)
  also have "\<dots> < unvisited H visited" using assms(3,4) by (simp add: unvisited_insert)
  finally show ?thesis .
qed

lemma object_ref_lt: "object_ref H v = Some p \<Longrightarrow> p < length H"
  by (auto simp: object_ref_def split: option.splits jsval.splits if_splits)

termination DFS
  apply (relation "inv_image (less_than <*lex*> less_than <*lex*> less_than)
     (\<lambda>x. case x of Inl (old, ret, inside, H, visited, ob) \<Rightarrow> (unvisited H visited, 1, 0)
        | Inr (old, ret, inside, H, visited, ob, ks) \<Rightarrow> (unvisited H visited, 0, length ks))")
  apply (simp_all add: unvisited_insert object_ref_lt)
  subgoal by (intro wf_inv_image wf_lex_prod wf_less_than)
  subgoal premises prems
    using DFS_unvisited [OF prems(4) prems(3) prems(2) object_ref_lt [OF prems(1)]] by simp
  done

declare DFS.simps [simp del] DFS_keys.simps [simp del]


text \<open>
  The loop of \<open>insertBefore\<close> that builds \<open>ret\<close> from the entries of \<open>grammar\<close> and of
  \<open>insert\<close>.
\<close>

definition insert_loop ::
  "(string \<times> jsval) list \<Rightarrow> string \<Rightarrow> (string \<times> jsval) list \<Rightarrow> (string \<times> jsval) list" where
  "insert_loop grammar before ins =
     foldl (\<lambda>ret (token, v).
        let ret1 = (if token = before then foldl (\<lambda>r (newToken, w). obj_set r newToken w) ret ins
                    else ret)
        in if token \<in> fst ` set ins then ret1 else obj_set ret1 token v)
       [] grammar"

text \<open>
  \<open>insertBefore(inside, before, insert, root)\<close> on the heap \<open>H\<close>, with the registry
  \<open>languages\<close>; \<open>root\<close> is \<open>None\<close> when the caller passes none. The result is the new heap
  and the new grammar object, or \<open>None\<close> when \<open>root[inside]\<close> or \<open>insert\<close> is not an
  object, which the callers must not do.
\<close>

definition insertBefore ::
  "addr \<Rightarrow> heap \<Rightarrow> string \<Rightarrow> string \<Rightarrow> addr \<Rightarrow> addr option \<Rightarrow> (heap \<times> addr) option" where
  "insertBefore languages H inside before ins root =
     (let root = (case root of None \<Rightarrow> languages | Some r \<Rightarrow> r) in
      case object_ref H (get_prop H root inside) of
        None \<Rightarrow> None
      | Some grammar \<Rightarrow>
          if ins < length H then
            (let ret = length H;
                 H1 = H @ [\<lparr>kind = Object,
                            props = insert_loop (props (H ! grammar)) before (props (H ! ins))\<rparr>];
                 old = grammar;
                 H2 = set_prop H1 root inside (VRef ret)
             in Some (fst (DFS old ret inside H2 {} languages), ret))
          else None)"

text \<open>
  \<open>structuredClone\<close> is the host's. What \<open>extend\<close> needs of it: it changes no object
  there is, and the clone is a new object of the same kind with the same keys in the
  same order.
\<close>

definition clone_ok :: "(heap \<Rightarrow> addr \<Rightarrow> heap \<times> addr) \<Rightarrow> bool" where
  "clone_ok sc = (\<forall>H a. a < length H \<longrightarrow>
     (case sc H a of (H', a') \<Rightarrow>
        take (length H) H' = H \<and> length H \<le> a' \<and> a' < length H'
        \<and> kind (H' ! a') = kind (H ! a)
        \<and> map fst (props (H' ! a')) = map fst (props (H ! a))))"

text \<open>
  \<open>extend(id, redef)\<close>: \<open>for (const key in redef) lang[key] = redef[key]\<close> on the clone.
  \<open>None\<close> is the \<open>TypeError\<close> of the assignment when \<open>languages[id]\<close> is no object.
\<close>

definition extend ::
  "(heap \<Rightarrow> addr \<Rightarrow> heap \<times> addr) \<Rightarrow> addr \<Rightarrow> heap \<Rightarrow> string \<Rightarrow> addr \<Rightarrow> (heap \<times> addr) option" where
  "extend sc languages H ident redef =
     (case object_ref H (get_prop H languages ident) of
        None \<Rightarrow> None
      | Some g \<Rightarrow>
          (case sc H g of
             (H1, lang) \<Rightarrow>
               Some (foldl (\<lambda>h key. case get_prop h redef key of
                                       None \<Rightarrow> h
                                     | Some v \<Rightarrow> set_prop h lang key v)
                       H1 (if redef < length H1 then map fst (props (H1 ! redef)) else []),
                     lang)))"

text \<open>A clone for grammars whose values are no objects: a copy of the object.\<close>

definition copy_object :: "heap \<Rightarrow> addr \<Rightarrow> heap \<times> addr" where
  "copy_object H a = (H @ [H ! a], length H)"

definition rx :: "string \<Rightarrow> jsval" where
  "rx s = VRegExp \<lparr>source = s, flags = []\<rparr>"

definition heap0 :: heap where
  "heap0 = [\<lparr>kind = Object, props = [(''base'', VRef 1)]\<rparr>,
            \<lparr>kind = Object, props = [(''a'', rx ''a''), (''b'', rx ''b'')]\<rparr>,
            \<lparr>kind = Object, props = [(''x'', rx ''x'')]\<rparr>,
            \<lparr>kind = Object, props = [(''a'', rx ''A''), (''c'', rx ''c'')]\<rparr>]"


definition heap1 :: heap where
  "heap1 = [\<lparr>kind = Object, props = [(''markup'', VRef 1)]\<rparr>,
            \<lparr>kind = Object, props = [(''tag'', VRef 2), (''entity'', VRef 3), (''shared'', VRef 4)]\<rparr>,
            \<lparr>kind = Object, props = [(''pattern'', rx ''t''), (''inside'', VRef 4)]\<rparr>,
            \<lparr>kind = Object, props = [(''pattern'', rx ''e''), (''inside'', VRef 4)]\<rparr>,
            \<lparr>kind = Object, props = [(''a'', rx ''a''), (''b'', rx ''b'')]\<rparr>,
            \<lparr>kind = Object, props = [(''x'', rx ''x'')]\<rparr>]"

section \<open>The order of the entries\<close>

definition plain_keys :: "(string \<times> 'v) list \<Rightarrow> bool" where
  "plain_keys ps = (distinct (map fst ps) \<and> list_all (\<lambda>(k, _). \<not> is_array_index k) ps)"

definition inserted ::
  "(string \<times> jsval) list \<Rightarrow> string \<Rightarrow> (string \<times> jsval) list \<Rightarrow> (string \<times> jsval) list" where
  "inserted grammar before ins =
     filter (\<lambda>(k, _). k \<notin> fst ` set ins) (takeWhile (\<lambda>(k, _). k \<noteq> before) grammar)
     @ (if before \<in> fst ` set grammar then ins else [])
     @ filter (\<lambda>(k, _). k \<notin> fst ` set ins) (dropWhile (\<lambda>(k, _). k \<noteq> before) grammar)"

lemma obj_set_new: "k \<notin> fst ` set ps \<Longrightarrow> \<not> is_array_index k \<Longrightarrow> obj_set ps k v = ps @ [(k, v)]"
  by (simp add: obj_set_def)

lemma replace_value_keys [simp]: "map fst (replace_value ps k v) = map fst ps"
  by (induction ps) auto

lemma foldl_obj_set_append:
  "distinct (map fst ins) \<Longrightarrow> fst ` set ins \<inter> fst ` set ps = {} \<Longrightarrow>
   list_all (\<lambda>(k, _). \<not> is_array_index k) ins \<Longrightarrow>
   foldl (\<lambda>r (k, w). obj_set r k w) ps ins = ps @ ins"
proof (induction ins arbitrary: ps)
  case Nil
  then show ?case by simp
next
  case (Cons x ins)
  obtain k w where x: "x = (k, w)" by (cases x)
  have new: "obj_set ps k w = ps @ [(k, w)]"
    using Cons.prems x by (intro obj_set_new) auto
  have "foldl (\<lambda>r (k, w). obj_set r k w) (ps @ [(k, w)]) ins = (ps @ [(k, w)]) @ ins"
    using Cons.prems x by (intro Cons.IH) auto
  with new x show ?case by simp
qed

lemma inserted_keys: "fst ` set (inserted g b ins) \<subseteq> (fst ` set g - fst ` set ins) \<union> fst ` set ins"
  by (auto simp: inserted_def dest: set_takeWhileD set_dropWhileD split: if_splits)

lemma insert_loop_snoc:
  "insert_loop (g @ [(t, v)]) b ins =
     (let ret1 = (if t = b then foldl (\<lambda>r (k, w). obj_set r k w) (insert_loop g b ins) ins
                  else insert_loop g b ins)
      in if t \<in> fst ` set ins then ret1 else obj_set ret1 t v)"
  by (simp add: insert_loop_def)

lemma inserted_before_absent:
  "b \<notin> fst ` set g \<Longrightarrow> inserted g b ins = filter (\<lambda>(k, _). k \<notin> fst ` set ins) g"
proof -
  assume a: "b \<notin> fst ` set g"
  then have "\<forall>x \<in> set g. (\<lambda>(k, _). k \<noteq> b) x" by force
  then have tw: "takeWhile (\<lambda>(k, _). k \<noteq> b) g = g" and dw: "dropWhile (\<lambda>(k, _). k \<noteq> b) g = []"
    by (simp_all add: takeWhile_eq_all_conv)
  show ?thesis unfolding inserted_def tw dw using a by simp
qed

lemma inserted_snoc_before:
  "b \<notin> fst ` set g \<Longrightarrow> inserted (g @ [(b, v)]) b ins =
     filter (\<lambda>(k, _). k \<notin> fst ` set ins) g @ ins @ (if b \<in> fst ` set ins then [] else [(b, v)])"
proof -
  assume a: "b \<notin> fst ` set g"
  then have "\<forall>x \<in> set g. (\<lambda>(k, _). k \<noteq> b) x" by force
  then have tw: "takeWhile (\<lambda>(k, _). k \<noteq> b) (g @ [(b, v)]) = g"
    and dw: "dropWhile (\<lambda>(k, _). k \<noteq> b) (g @ [(b, v)]) = [(b, v)]"
    by simp_all
  show ?thesis unfolding inserted_def tw dw by simp
qed

lemma inserted_snoc_other:
  "t \<noteq> b \<Longrightarrow> inserted (g @ [(t, v)]) b ins =
     inserted g b ins @ (if t \<in> fst ` set ins then [] else [(t, v)])"
proof (cases "b \<in> fst ` set g")
  case True
  assume "t \<noteq> b"
  from True obtain x where x: "x \<in> set g" "\<not> (\<lambda>(k, _). k \<noteq> b) x" by force
  have tw: "takeWhile (\<lambda>(k, _). k \<noteq> b) (g @ [(t, v)]) = takeWhile (\<lambda>(k, _). k \<noteq> b) g"
    using x by (rule takeWhile_append1)
  have dw: "dropWhile (\<lambda>(k, _). k \<noteq> b) (g @ [(t, v)]) = dropWhile (\<lambda>(k, _). k \<noteq> b) g @ [(t, v)]"
    using x by (rule dropWhile_append1)
  show ?thesis unfolding inserted_def tw dw using True by simp
next
  case False
  assume "t \<noteq> b"
  with False have "b \<notin> fst ` set (g @ [(t, v)])" by auto
  from inserted_before_absent [OF this] inserted_before_absent [OF False]
  show ?thesis by simp
qed

lemma insert_loop_inserted:
  assumes "plain_keys g" and "plain_keys ins"
  shows "insert_loop g b ins = inserted g b ins"
  using assms(1)
proof (induction g rule: rev_induct)
  case Nil
  then show ?case by (simp add: insert_loop_def inserted_def)
next
  case (snoc x g)
  obtain t v where x: "x = (t, v)" by (cases x)
  from snoc.prems x have pg: "plain_keys g" and tg: "t \<notin> fst ` set g" and ti: "\<not> is_array_index t"
    by (auto simp: plain_keys_def)
  note IH = snoc.IH [OF pg]
  have tnew: "t \<notin> fst ` set ins \<Longrightarrow> t \<notin> fst ` set (inserted g b ins)"
    using inserted_keys [of g b ins] tg by auto
  show ?case
  proof (cases "t = b")
    case True
    with tg have bg: "b \<notin> fst ` set g" by simp
    have f: "foldl (\<lambda>r (k, w). obj_set r k w) (filter (\<lambda>(k, _). k \<notin> fst ` set ins) g) ins
        = filter (\<lambda>(k, _). k \<notin> fst ` set ins) g @ ins"
      using assms(2) by (intro foldl_obj_set_append) (force simp: plain_keys_def)+
    have n: "b \<notin> fst ` set ins \<Longrightarrow>
        obj_set (filter (\<lambda>(k, _). k \<notin> fst ` set ins) g @ ins) b v
          = (filter (\<lambda>(k, _). k \<notin> fst ` set ins) g @ ins) @ [(b, v)]"
      using bg ti True by (intro obj_set_new) auto
    show ?thesis
      using True x IH f n inserted_before_absent [OF bg, of ins] inserted_snoc_before [OF bg, of v ins]
      by (simp add: insert_loop_snoc)
  next
    case False
    have n: "t \<notin> fst ` set ins \<Longrightarrow> obj_set (inserted g b ins) t v = inserted g b ins @ [(t, v)]"
      using tnew ti by (intro obj_set_new) auto
    show ?thesis
      using False x IH n inserted_snoc_other [OF False, of g v ins]
      by (simp add: insert_loop_snoc)
  qed
qed

definition rewritten :: "addr \<Rightarrow> addr \<Rightarrow> (string \<times> jsval) \<Rightarrow> (string \<times> jsval) \<Rightarrow> bool" where
  "rewritten old ret e e' = (fst e' = fst e \<and> (snd e' = snd e \<or> (snd e = VRef old \<and> snd e' = VRef ret)))"

definition heap_rewritten :: "addr \<Rightarrow> addr \<Rightarrow> heap \<Rightarrow> heap \<Rightarrow> bool" where
  "heap_rewritten old ret H H' =
     (length H' = length H \<and>
      (\<forall>a < length H. kind (H' ! a) = kind (H ! a)
         \<and> list_all2 (rewritten old ret) (props (H ! a)) (props (H' ! a))))"

lemma rewritten_refl: "rewritten old ret e e"
  by (simp add: rewritten_def)

lemma rewritten_trans: "rewritten old ret e e' \<Longrightarrow> rewritten old ret e' e'' \<Longrightarrow> rewritten old ret e e''"
  by (auto simp: rewritten_def)

lemma heap_rewritten_refl: "heap_rewritten old ret H H"
  by (simp add: heap_rewritten_def list_all2_refl rewritten_refl)

lemma list_all2_rewritten_trans:
  "list_all2 (rewritten old ret) xs ys \<Longrightarrow> list_all2 (rewritten old ret) ys zs \<Longrightarrow>
   list_all2 (rewritten old ret) xs zs"
  by (rule list_all2_trans [of "rewritten old ret" "rewritten old ret" "rewritten old ret"])
     (auto intro: rewritten_trans)

lemma heap_rewritten_trans:
  "heap_rewritten old ret H H' \<Longrightarrow> heap_rewritten old ret H' H'' \<Longrightarrow> heap_rewritten old ret H H''"
  unfolding heap_rewritten_def by (auto intro: list_all2_rewritten_trans)

lemma replace_value_rewritten:
  "map_of ps k = Some (VRef old) \<Longrightarrow> list_all2 (rewritten old ret) ps (replace_value ps k (VRef ret))"
proof (induction ps)
  case Nil
  then show ?case by simp
next
  case (Cons x ps)
  obtain k' v' where x: "x = (k', v')" by (cases x)
  with Cons show ?case
    by (auto simp: rewritten_def list_all2_refl)
qed

lemma map_of_Some_key: "map_of ps k = Some v \<Longrightarrow> k \<in> fst ` set ps"
  by (meson domI domIff map_of_eq_None_iff)

lemma callback_rewritten: "heap_rewritten old ret H (callback old ret inside H this key)"
proof (cases "get_prop H this key = Some (VRef old) \<and> key \<noteq> inside")
  case False
  then show ?thesis by (auto simp: callback_def heap_rewritten_refl)
next
  case True
  then have t: "this < length H" and m: "map_of (props (H ! this)) key = Some (VRef old)"
    by (auto simp: get_prop_def split: if_splits)
  have "list_all2 (rewritten old ret) (props (H ! this)) (obj_set (props (H ! this)) key (VRef ret))"
    using replace_value_rewritten [OF m] map_of_Some_key [OF m] by (simp add: obj_set_def)
  with True t show ?thesis
    by (auto simp: callback_def set_prop_def heap_rewritten_def nth_list_update list_all2_refl rewritten_refl)
qed

lemma DFS_rewritten:
  "heap_rewritten old ret H (fst (DFS old ret inside H visited ob))"
  "heap_rewritten old ret H (fst (DFS_keys old ret inside H visited ob ks))"
proof (induction old ret inside H visited ob and old ret inside H visited ob ks rule: DFS_DFS_keys.induct)
  case (1 old ret inside H visited ob)
  then show ?case by (simp add: DFS.simps)
next
  case (2 old ret inside H visited ob)
  then show ?case by (simp add: DFS_keys.simps heap_rewritten_refl)
next
  case (3 old ret inside H visited ob i "is")
  let ?H1 = "callback old ret inside H ob i"
  note cb = callback_rewritten [of old ret H inside ob i]
  show ?case
  proof (cases "object_ref H (get_prop ?H1 ob i)")
    case None
    with 3 cb show ?thesis by (auto simp: DFS_keys.simps(2) [of old ret inside H visited ob i "is"] intro: heap_rewritten_trans)
  next
    case (Some p)
    show ?thesis
    proof (cases "p \<in> visited")
      case True
      with 3 Some cb show ?thesis by (auto simp: DFS_keys.simps(2) [of old ret inside H visited ob i "is"] intro: heap_rewritten_trans)
    next
      case False
      obtain H2 visited2 where r: "DFS old ret inside ?H1 (insert p visited) p = (H2, visited2)"
        by (cases "DFS old ret inside ?H1 (insert p visited) p")
      from "3.IH"(3) [OF Some False] r have a: "heap_rewritten old ret ?H1 H2" by simp
      from "3.IH"(4) [OF Some False r [symmetric]]
      have b: "heap_rewritten old ret H2 (fst (DFS_keys old ret inside H2 visited2 ob is))" .
      have "DFS_keys old ret inside H visited ob (i # is) = DFS_keys old ret inside H2 visited2 ob is"
        using Some False r by (simp add: DFS_keys.simps(2) [of old ret inside H visited ob i "is"])
      with cb a b show ?thesis by (auto intro: heap_rewritten_trans)
    qed
  qed
qed

lemma object_ref_get_prop:
  "object_ref H (get_prop H r k) = Some g \<Longrightarrow> r < length H \<and> g < length H \<and> r \<noteq> length H"
  by (auto simp: object_ref_def get_prop_def split: option.splits jsval.splits if_splits)

lemma rewritten_keys: "list_all2 (rewritten old ret) xs ys \<Longrightarrow> map fst ys = map fst xs"
  by (induction rule: list_all2_induct) (auto simp: rewritten_def)

text \<open>
  C4: \<open>insertBefore\<close> returns a new object (the next free address) whose entries are, in
  iteration order, the entries of the target before \<open>before\<close>, the entries of \<open>insert\<close>,
  and the entries of the target from \<open>before\<close> on, without the target's entries whose
  names are keys of \<open>insert\<close>; this for objects with distinct keys none of which is an
  array index. The values are the copied ones, but for references to the old grammar
  that the walk over the registry has replaced by references to the new one.
\<close>

theorem insertBefore_order:
  assumes "object_ref H (get_prop H (case root of None \<Rightarrow> languages | Some r \<Rightarrow> r) inside) = Some g"
    and "ins < length H"
    and "plain_keys (props (H ! g))" and "plain_keys (props (H ! ins))"
  shows "\<exists>H'. insertBefore languages H inside before ins root = Some (H', length H)
    \<and> map fst (props (H' ! length H)) = map fst (inserted (props (H ! g)) before (props (H ! ins)))
    \<and> list_all2 (rewritten g (length H))
         (inserted (props (H ! g)) before (props (H ! ins))) (props (H' ! length H))"
proof -
  let ?root = "case root of None \<Rightarrow> languages | Some r \<Rightarrow> r"
  let ?ret = "length H"
  let ?H1 = "H @ [\<lparr>kind = Object, props = insert_loop (props (H ! g)) before (props (H ! ins))\<rparr>]"
  let ?H2 = "set_prop ?H1 ?root inside (VRef ?ret)"
  let ?H3 = "fst (DFS g ?ret inside ?H2 {} languages)"
  from object_ref_get_prop [OF assms(1)] have r: "?root < length H" "?root \<noteq> length H" by simp_all
  have e: "insertBefore languages H inside before ins root = Some (?H3, ?ret)"
    using assms(1,2) by (simp add: insertBefore_def Let_def)
  have "props (?H2 ! ?ret) = insert_loop (props (H ! g)) before (props (H ! ins))"
    using r by (simp add: set_prop_def nth_list_update)
  then have p: "props (?H2 ! ?ret) = inserted (props (H ! g)) before (props (H ! ins))"
    by (simp add: insert_loop_inserted [OF assms(3,4)])
  have "heap_rewritten g ?ret ?H2 ?H3" by (rule DFS_rewritten)
  then have "list_all2 (rewritten g ?ret) (props (?H2 ! ?ret)) (props (?H3 ! ?ret))"
    by (simp add: heap_rewritten_def)
  with p e rewritten_keys [of g ?ret "props (?H2 ! ?ret)" "props (?H3 ! ?ret)"] show ?thesis by simp
qed

text \<open>What \<open>extend\<close> is to build from the entries of the clone and of \<open>redef\<close>.\<close>

definition extended :: "(string \<times> jsval) list \<Rightarrow> (string \<times> jsval) list \<Rightarrow> (string \<times> jsval) list" where
  "extended clone redef =
     map (\<lambda>(k, v). case map_of redef k of None \<Rightarrow> (k, v) | Some w \<Rightarrow> (k, w)) clone
     @ filter (\<lambda>(k, _). k \<notin> fst ` set clone) redef"

lemma replace_value_map:
  "distinct (map fst ps) \<Longrightarrow>
   replace_value ps k w = map (\<lambda>(k', v'). if k' = k then (k', w) else (k', v')) ps"
proof (induction ps)
  case Nil
  then show ?case by simp
next
  case (Cons x ps)
  obtain k' v' where x: "x = (k', v')" by (cases x)
  show ?case
  proof (cases "k' = k")
    case True
    with Cons.prems x have "k \<notin> fst ` set ps" by auto
    then have "map (\<lambda>(k', v'). if k' = k then (k', w) else (k', v')) ps = ps"
      by (induction ps) auto
    with True x show ?thesis by simp
  next
    case False
    with Cons x show ?thesis by simp
  qed
qed

definition override :: "(string \<times> jsval) list \<Rightarrow> string \<times> jsval \<Rightarrow> string \<times> jsval" where
  "override redef e = (case map_of redef (fst e) of None \<Rightarrow> e | Some w \<Rightarrow> (fst e, w))"

lemma extended_override:
  "extended c r = map (override r) c @ filter (\<lambda>(k, _). k \<notin> fst ` set c) r"
  by (simp add: extended_def override_def case_prod_beta split: option.splits cong: map_cong)

lemma fst_override [simp]: "fst (override r e) = fst e"
  by (simp add: override_def split: option.splits)

lemma extended_map_fst:
  "map fst (extended c r) = map fst c @ map fst (filter (\<lambda>(k, _). k \<notin> fst ` set c) r)"
  by (simp add: extended_override comp_def)

lemma extended_keys: "fst ` set (extended c r) = fst ` set c \<union> fst ` set r"
proof -
  have "set (map fst (extended c r)) = fst ` set c \<union> fst ` set r"
    unfolding extended_map_fst by force
  then show ?thesis by simp
qed

lemma extended_distinct:
  assumes "distinct (map fst c)" and "distinct (map fst r)"
  shows "distinct (map fst (extended c r))"
proof -
  have "distinct (map fst (filter (\<lambda>(k, _). k \<notin> fst ` set c) r))"
    using assms(2) by (simp add: distinct_map_filter)
  moreover have "set (map fst c) \<inter> set (map fst (filter (\<lambda>(k, _). k \<notin> fst ` set c) r)) = {}"
    by force
  ultimately show ?thesis unfolding extended_map_fst using assms(1) by (simp only: distinct_append) 
qed

lemma replace_absent:
  "k \<notin> fst ` set xs \<Longrightarrow> map (\<lambda>(k', v'). if k' = k then (k', w) else (k', v')) xs = xs"
  by (induction xs) auto

lemma override_snoc_present:
  "map_of r k = None \<Longrightarrow>
   map (\<lambda>(k', v'). if k' = k then (k', w) else (k', v')) (map (override r) c)
     = map (override (r @ [(k, w)])) c"
  by (induction c) (auto simp: override_def map_add_def split: option.splits)

lemma override_snoc_absent:
  "k \<notin> fst ` set c \<Longrightarrow> map (override (r @ [(k, w)])) c = map (override r) c"
  by (induction c) (auto simp: override_def map_add_def split: option.splits)

lemma extended_snoc:
  assumes "distinct (map fst c)" and "distinct (map fst (r @ [(k, w)]))" and "\<not> is_array_index k"
  shows "obj_set (extended c r) k w = extended c (r @ [(k, w)])"
proof -
  from assms(2) have kr: "k \<notin> fst ` set r" and dr: "distinct (map fst r)" by auto
  then have mk: "map_of r k = None" by (simp add: map_of_eq_None_iff)
  show ?thesis
  proof (cases "k \<in> fst ` set c")
    case True
    then have "k \<in> fst ` set (extended c r)" by (simp add: extended_keys)
    then have "obj_set (extended c r) k w
        = map (\<lambda>(k', v'). if k' = k then (k', w) else (k', v')) (extended c r)"
      using replace_value_map [OF extended_distinct [OF assms(1) dr]] by (simp add: obj_set_def)
    also have "\<dots> = map (override (r @ [(k, w)])) c @ filter (\<lambda>(k, _). k \<notin> fst ` set c) r"
    proof -
      have "k \<notin> fst ` set (filter (\<lambda>(k, _). k \<notin> fst ` set c) r)" using kr by auto
      from replace_absent [OF this] override_snoc_present [OF mk]
      show ?thesis by (simp add: extended_override)
    qed
    also have "\<dots> = extended c (r @ [(k, w)])"
      using True by (simp add: extended_override)
    finally show ?thesis .
  next
    case False
    then have "k \<notin> fst ` set (extended c r)" using kr by (simp add: extended_keys)
    then have "obj_set (extended c r) k w = extended c r @ [(k, w)]"
      using assms(3) by (rule obj_set_new)
    also have "\<dots> = extended c (r @ [(k, w)])"
      using False override_snoc_absent [OF False] by (simp add: extended_override)
    finally show ?thesis .
  qed
qed

lemma foldl_obj_set_extended:
  "distinct (map fst c) \<Longrightarrow> plain_keys r \<Longrightarrow>
   foldl (\<lambda>ps (k, w). obj_set ps k w) c r = extended c r"
proof (induction r rule: rev_induct)
  case Nil
  then show ?case by (simp add: extended_def)
next
  case (snoc x r)
  obtain k w where x: "x = (k, w)" by (cases x)
  from snoc.prems x have "plain_keys r" "\<not> is_array_index k" "distinct (map fst (r @ [(k, w)]))"
    by (auto simp: plain_keys_def)
  with snoc x show ?case by (simp add: extended_snoc)
qed

lemma foldl_assign:
  assumes "redef \<noteq> lang" and "redef < length h" and "lang < length h"
    and "distinct (map fst (props (h ! redef)))" and "set R \<subseteq> set (props (h ! redef))"
  shows "foldl (\<lambda>h key. case get_prop h redef key of None \<Rightarrow> h | Some v \<Rightarrow> set_prop h lang key v)
           h (map fst R)
         = h[lang := (h ! lang)\<lparr>props := foldl (\<lambda>ps (k, w). obj_set ps k w) (props (h ! lang)) R\<rparr>]"
  using assms(2-)
proof (induction R arbitrary: h)
  case Nil
  then show ?case by simp
next
  case (Cons x R)
  obtain k w where x: "x = (k, w)" by (cases x)
  let ?h' = "set_prop h lang k w"
  from Cons.prems x have "map_of (props (h ! redef)) k = Some w" by (intro map_of_is_SomeI) auto
  with Cons.prems have g: "get_prop h redef k = Some w" by (simp add: get_prop_def)
  have h': "?h' = h[lang := (h ! lang)\<lparr>props := obj_set (props (h ! lang)) k w\<rparr>]"
    using Cons.prems by (simp add: set_prop_def)
  have same: "?h' ! redef = h ! redef" using assms(1) Cons.prems by (simp add: h')
  have "foldl (\<lambda>h key. case get_prop h redef key of None \<Rightarrow> h | Some v \<Rightarrow> set_prop h lang key v)
           ?h' (map fst R)
         = ?h'[lang := (?h' ! lang)\<lparr>props := foldl (\<lambda>ps (k, w). obj_set ps k w) (props (?h' ! lang)) R\<rparr>]"
    using Cons.prems same by (intro Cons.IH) auto
  then show ?case using g x Cons.prems(2) by (simp add: h')
qed

text \<open>
  C6: for an id of the registry that names an object, \<open>extend\<close> returns a new object, the
  clone with the entries of \<open>redef\<close> assigned: a key the clone has keeps its place and
  takes the value of \<open>redef\<close>, the other keys of \<open>redef\<close> follow at the end in their order;
  every object there was, the registry and the original grammar among them, is what it was.
\<close>

theorem extend_result:
  assumes "clone_ok sc"
    and "object_ref H (get_prop H languages ident) = Some g"
    and "redef < length H"
    and "distinct (map fst (props (H ! g)))" and "plain_keys (props (H ! redef))"
  shows "\<exists>H' lang. extend sc languages H ident redef = Some (H', lang)
    \<and> take (length H) H' = H \<and> length H \<le> lang \<and> lang < length H'
    \<and> props (H' ! lang) = extended (props (fst (sc H g) ! snd (sc H g))) (props (H ! redef))
    \<and> map fst (props (H' ! lang))
        = map fst (props (H ! g))
          @ filter (\<lambda>k. k \<notin> fst ` set (props (H ! g))) (map fst (props (H ! redef)))"
proof -
  obtain H1 lang where sc: "sc H g = (H1, lang)" by (cases "sc H g")
  from object_ref_get_prop [OF assms(2)] have g: "g < length H" by simp
  from assms(1) g sc have c: "take (length H) H1 = H" "length H \<le> lang" "lang < length H1"
    "map fst (props (H1 ! lang)) = map fst (props (H ! g))"
    by (auto simp: clone_ok_def split: prod.splits)
  have len: "length H \<le> length H1" using c(2,3) by simp
  have old: "\<And>a. a < length H \<Longrightarrow> H1 ! a = H ! a"
    using c(1) by (metis nth_take)
  have r1: "redef < length H1" "redef \<noteq> lang" "H1 ! redef = H ! redef"
    using assms(3) c(2) len old by auto
  let ?P = "foldl (\<lambda>ps (k, w). obj_set ps k w) (props (H1 ! lang)) (props (H ! redef))"
  let ?H' = "H1[lang := (H1 ! lang)\<lparr>props := ?P\<rparr>]"
  have f: "foldl (\<lambda>h key. case get_prop h redef key of None \<Rightarrow> h | Some v \<Rightarrow> set_prop h lang key v)
           H1 (map fst (props (H ! redef))) = ?H'"
    using foldl_assign [OF r1(2) r1(1) c(3), of "props (H ! redef)"] assms(5) r1(3)
    by (simp add: plain_keys_def)
  have e: "extend sc languages H ident redef = Some (?H', lang)"
    using assms(2) sc r1 f by (simp add: extend_def)
  have dc: "distinct (map fst (props (H1 ! lang)))" using c(4) assms(4) by simp
  have P: "?P = extended (props (H1 ! lang)) (props (H ! redef))"
    using dc assms(5) by (rule foldl_obj_set_extended)
  have frame: "take (length H) ?H' = H" using c(1,2) by simp
  have pl: "props (?H' ! lang) = ?P" using c(3) by simp
  have sets: "fst ` set (props (H1 ! lang)) = fst ` set (props (H ! g))"
    using c(4) by (metis list.set_map)
  have keys: "map fst (props (?H' ! lang)) = map fst (props (H ! g))
          @ filter (\<lambda>k. k \<notin> fst ` set (props (H ! g))) (map fst (props (H ! redef)))"
  proof -
    have "map fst (props (?H' ! lang)) = map fst (extended (props (H1 ! lang)) (props (H ! redef)))"
      using pl P by simp
    also have "\<dots> = map fst (props (H ! g))
          @ map fst (filter (\<lambda>(k, _). k \<notin> fst ` set (props (H ! g))) (props (H ! redef)))"
      unfolding extended_map_fst c(4) sets ..
    finally show ?thesis by (simp add: filter_map comp_def split_def)
  qed
  from e frame c(2,3) pl P keys sc show ?thesis by simp
qed

section \<open>The examples of the composition\<close>

lemma clone_ok_copy_object: "clone_ok copy_object"
  by (simp add: clone_ok_def copy_object_def nth_append)

lemma plain_keys_heap0:
  "plain_keys (props (heap0 ! 1))" "plain_keys (props (heap0 ! 2))" "plain_keys (props (heap0 ! 3))"
  by (simp_all add: heap0_def plain_keys_def is_array_index_def rx_def)

text \<open>
  The example of C4: from \<open>{ base: { a: /a/, b: /b/ } }\<close>, \<open>insertBefore("base", "b", { x: /x/ })\<close>
  gives the order a, x, b.
\<close>

theorem insertBefore_order_witness:
  "\<exists>H'. insertBefore 0 heap0 ''base'' ''b'' 2 None = Some (H', 4)
     \<and> map fst (props (H' ! 4)) = [''a'', ''x'', ''b'']"
proof -
  have g: "object_ref heap0 (get_prop heap0 (case None of None \<Rightarrow> 0 | Some r \<Rightarrow> r) ''base'') = Some 1"
    by (simp add: heap0_def object_ref_def get_prop_def)
  have i: "2 < length heap0" by (simp add: heap0_def)
  have k: "map fst (inserted (props (heap0 ! 1)) ''b'' (props (heap0 ! 2))) = [''a'', ''x'', ''b'']"
    by (simp add: heap0_def inserted_def rx_def)
  have l: "length heap0 = 4" by (simp add: heap0_def)
  from insertBefore_order [OF g i plain_keys_heap0(1,2), of "''b''"] k l show ?thesis by auto
qed

text \<open>
  The example of C6: \<open>extend("base", { a: /A/, c: /c/ })\<close> gives the order a, b, c with
  the pattern of a replaced, and leaves the heap as it was.
\<close>

theorem extend_result_witness:
  "\<exists>H' lang. extend copy_object 0 heap0 ''base'' 3 = Some (H', lang)
     \<and> take 4 H' = heap0
     \<and> props (H' ! lang) = [(''a'', rx ''A''), (''b'', rx ''b''), (''c'', rx ''c'')]"
proof -
  have g: "object_ref heap0 (get_prop heap0 0 ''base'') = Some 1"
    by (simp add: heap0_def object_ref_def get_prop_def)
  have i: "3 < length heap0" by (simp add: heap0_def)
  have d: "distinct (map fst (props (heap0 ! 1)))" using plain_keys_heap0(1) by (simp add: plain_keys_def)
  have l: "length heap0 = 4" by (simp add: heap0_def)
  have k: "extended (props (fst (copy_object heap0 1) ! snd (copy_object heap0 1))) (props (heap0 ! 3))
      = [(''a'', rx ''A''), (''b'', rx ''b''), (''c'', rx ''c'')]"
    by (simp add: copy_object_def heap0_def extended_def rx_def)
  from extend_result [OF clone_ok_copy_object g i d plain_keys_heap0(3)] k l show ?thesis by auto
qed

text \<open>
  C5: \<open>root[inside]\<close> becomes the new object and the walk over the registry replaces the
  references to the old object, but not under a key equal to \<open>inside\<close>: the callback tests
  \<open>key != inside\<close> on every object it visits. In \<open>heap1\<close> the rules \<open>tag\<close> and \<open>entity\<close>
  share their \<open>inside\<close> grammar; after \<open>insertBefore("inside", "b", {x: /x/}, tag)\<close> the field
  \<open>shared\<close> refers to the new grammar and \<open>entity.inside\<close> still to the old one.
\<close>

theorem insertBefore_keeps_old_inside:
  "map_option (\<lambda>(H', ret). (ret, get_prop H' 2 ''inside'', get_prop H' 1 ''shared'', get_prop H' 3 ''inside''))
     (insertBefore 0 heap1 ''inside'' ''b'' 5 (Some 2))
   = Some (6, Some (VRef 6), Some (VRef 6), Some (VRef 4))"
  by code_simp

end
